theory Spec2Isabelle
  imports Main "HOL-Library.Word" "HOL-Library.Multiset"
begin

unbundle bit_operations_syntax

section \<open>Data model\<close>

text \<open>
  A \<open>std::bitset<N>\<close> is an \<open>N word\<close>; bit index 0 is the least significant bit, and
  \<open>num[i]\<close> is \<open>bit num i\<close>. A \<open>std::array<std::bitset<56>, n>\<close> is a list of
  \<open>56 word\<close>; the type fixes its length in the source, so the length (1600 for the
  Master Key Matrix) is a hypothesis wherever it matters, and a read past the end,
  undefined in the source, is \<open>None\<close> in the model.
\<close>

type_synonym ksv = "40 word"
type_synonym key56 = "56 word"

text \<open>\<open>std::bitset::count\<close>: the number of set bits.\<close>

definition count_bits :: "'a::len word \<Rightarrow> nat" where
  "count_bits w = length (filter (bit w) [0..<LENGTH('a)])"

text \<open>\<open>std::array::operator[]\<close>: defined below the size only.\<close>

definition key_at :: "key56 list \<Rightarrow> nat \<Rightarrow> key56 option" where
  "key_at key n = (if n < length key then Some (key ! n) else None)"

section \<open>KSV validity (\<open>check_ksv\<close>, hdcp.cpp 299-302)\<close>

definition check_ksv :: "ksv \<Rightarrow> bool" where
  "check_ksv ksv = (count_bits ksv \<noteq> 20)"

section \<open>Key derivation (\<open>generate_source\<close>, \<open>generate_sink\<close>, hdcp.cpp 156-196)\<close>

text \<open>
  The inner loop \<open>for(z = 0; z < 40; z++) if(ksv[z]) temp += key[...].to_ullong();\<close>
  over the remaining values of \<open>z\<close>. The accumulator \<open>temp\<close> is a \<open>std::uint64_t\<close>, so
  \<open>+\<close> is addition modulo \<open>2^64\<close>. The two derivations differ in the index expression
  only, which is the parameter \<open>idx\<close> (a function of \<open>z\<close>, for the current \<open>i\<close>).
\<close>

fun accumulate :: "ksv \<Rightarrow> key56 list \<Rightarrow> (nat \<Rightarrow> nat) \<Rightarrow> nat list \<Rightarrow> 64 word \<Rightarrow> 64 word option" where
  "accumulate ksv key idx [] temp = Some temp"
| "accumulate ksv key idx (z # zs) temp =
     (if bit ksv z then
        (case key_at key (idx z) of
           None \<Rightarrow> None
         | Some k \<Rightarrow> accumulate ksv key idx zs (temp + ucast k))
      else accumulate ksv key idx zs temp)"

text \<open>
  The outer loop \<open>for(i = 0; i < 40; i++)\<close>: \<open>temp\<close> starts at 0, the inner loop runs,
  \<open>temp = temp & 0xffffffffffffff\<close>, and \<open>result[i] = temp\<close> converts to a
  \<open>std::bitset<56>\<close>.
\<close>

fun derive :: "ksv \<Rightarrow> key56 list \<Rightarrow> (nat \<Rightarrow> nat \<Rightarrow> nat) \<Rightarrow> nat list \<Rightarrow> key56 list option" where
  "derive ksv key idx [] = Some []"
| "derive ksv key idx (i # js) =
     (case accumulate ksv key (idx i) [0..<40] 0 of
        None \<Rightarrow> None
      | Some temp \<Rightarrow>
          (case derive ksv key idx js of
             None \<Rightarrow> None
           | Some result \<Rightarrow> Some (ucast (temp AND 0xffffffffffffff) # result)))"

definition generate_source :: "ksv \<Rightarrow> key56 list \<Rightarrow> key56 list option" where
  "generate_source ksv key = derive ksv key (\<lambda>i z. z * 40 + i) [0..<40]"

definition generate_sink :: "ksv \<Rightarrow> key56 list \<Rightarrow> key56 list option" where
  "generate_sink ksv key = derive ksv key (\<lambda>i z. i * 40 + z) [0..<40]"

text \<open>The value of \<open>temp\<close> when the inner loop of output slot \<open>i\<close> ends.\<close>

definition source_temp :: "ksv \<Rightarrow> key56 list \<Rightarrow> nat \<Rightarrow> 64 word option" where
  "source_temp ksv key i = accumulate ksv key (\<lambda>z. z * 40 + i) [0..<40] 0"

definition sink_temp :: "ksv \<Rightarrow> key56 list \<Rightarrow> nat \<Rightarrow> 64 word option" where
  "sink_temp ksv key i = accumulate ksv key (\<lambda>z. i * 40 + z) [0..<40] 0"

section \<open>Hexadecimal rendering (\<open>bitset_to_hex\<close>, hdcp.cpp 36-69)\<close>

text \<open>The lookup table \<open>hex_map\<close>.\<close>

definition hex_map :: string where
  "hex_map = ''0123456789abcdef''"

text \<open>
  The inner loop \<open>for(k = 0; k < 4; k++)\<close> over the remaining values of \<open>k\<close>:
  \<open>bit_in_num_index = (bits - 1) - (i * 4) - k\<close>, and a set bit there gives
  \<open>nibble_value |= (1 << (3 - k))\<close> on a \<open>std::uint8_t\<close>. With \<open>bits\<close> a multiple of 4
  (a \<open>static_assert\<close>) and \<open>i < bits / 4\<close> the subtraction does not go below 0.
\<close>

fun nibble_loop :: "'a::len word \<Rightarrow> nat \<Rightarrow> nat list \<Rightarrow> 8 word \<Rightarrow> 8 word" where
  "nibble_loop num i [] nibble_value = nibble_value"
| "nibble_loop num i (k # ks) nibble_value =
     nibble_loop num i ks
       (if bit num ((LENGTH('a) - 1) - (i * 4) - k)
        then nibble_value OR push_bit (3 - k) 1
        else nibble_value)"

text \<open>
  The outer loop writes \<open>result[i] = hex_map[nibble_value]\<close> for every \<open>i\<close> below
  \<open>num_hex_chars = bits / 4\<close>, into a string of that size.
\<close>

definition bitset_to_hex :: "'a::len word \<Rightarrow> string" where
  "bitset_to_hex num =
     map (\<lambda>i. hex_map ! unat (nibble_loop num i [0..<4] 0)) [0..<LENGTH('a) div 4]"

section \<open>Hexadecimal parsing (\<open>ksv_string_to_bitset\<close>, \<open>char_to_uint8_t\<close>, hdcp.cpp 76-150, 216-272)\<close>

text \<open>
  The \<open>switch\<close> of \<open>char_to_uint8_t\<close>: its sixteen \<open>case\<close> labels with the value each
  returns, in the source's order. Every other character takes the \<open>default\<close> branch and
  reaches the final \<open>return 0b0000\<close>.
\<close>

definition switch_cases :: "(char \<times> 8 word) list" where
  "switch_cases =
     [(CHR ''0'', 0), (CHR ''1'', 1), (CHR ''2'', 2), (CHR ''3'', 3),
      (CHR ''4'', 4), (CHR ''5'', 5), (CHR ''6'', 6), (CHR ''7'', 7),
      (CHR ''8'', 8), (CHR ''9'', 9), (CHR ''a'', 10), (CHR ''b'', 11),
      (CHR ''c'', 12), (CHR ''d'', 13), (CHR ''e'', 14), (CHR ''f'', 15)]"

definition char_to_uint8_t :: "char \<Rightarrow> 8 word" where
  "char_to_uint8_t c = (case map_of switch_cases c of Some v \<Rightarrow> v | None \<Rightarrow> 0)"

text \<open>
  The local \<open>string_to_convert\<close> after the \<open>if(s.size() < 15)\<close> statement: the input,
  padded on the left with \<open>15 - s.size()\<close> characters \<open>0\<close> when it is shorter than 15, and
  reversed in both branches.
\<close>

definition string_to_convert :: "string \<Rightarrow> string" where
  "string_to_convert s =
     (if length s < 15
      then rev (replicate (15 - length s) (CHR ''0'') @ s)
      else rev s)"

text \<open>
  \<open>std::string::operator[]\<close>: the character below the size, the null character at the
  size itself, undefined (here \<open>None\<close>) beyond it.
\<close>

definition str_at :: "string \<Rightarrow> nat \<Rightarrow> char option" where
  "str_at str pos =
     (if pos < length str then Some (str ! pos)
      else if pos = length str then Some (CHR 0x00)
      else None)"

text \<open>
  The assignment \<open>kl.klb.u<k> = v\<close> through the union \<open>ksv_layout\<close>. The bit-field
  \<open>u<k>\<close> is 4 bits wide, so it keeps the low 4 bits of \<open>v\<close>. Where a bit-field lies in
  the overlapping \<open>std::uint64_t ksv_number\<close> is implementation-defined; the model takes
  the layout of the little-endian ABIs (x86-64 and AArch64 with GCC, Clang or MSVC),
  where \<open>u<k>\<close> is bits \<open>4k .. 4k+3\<close> of \<open>ksv_number\<close>.
\<close>

definition set_field :: "nat \<Rightarrow> 8 word \<Rightarrow> 64 word \<Rightarrow> 64 word" where
  "set_field k v ksv_number =
     (ksv_number AND NOT (push_bit (4 * k) 0xF)) OR push_bit (4 * k) (ucast (v AND 0xF))"

text \<open>
  The sixteen assignments \<open>kl.klb.u0 = char_to_uint8_t(string_to_convert[0])\<close> to
  \<open>kl.klb.u15 = char_to_uint8_t(string_to_convert[15])\<close>, in the source's order.
\<close>

fun fill_fields :: "string \<Rightarrow> nat list \<Rightarrow> 64 word \<Rightarrow> 64 word option" where
  "fill_fields str [] ksv_number = Some ksv_number"
| "fill_fields str (k # ks) ksv_number =
     (case str_at str k of
        None \<Rightarrow> None
      | Some c \<Rightarrow> fill_fields str ks (set_field k (char_to_uint8_t c) ksv_number))"

text \<open>
  \<open>kl.ksv_number = 0\<close>, the sixteen assignments, and \<open>result = kl.ksv_number\<close>, which
  keeps the low \<open>bits\<close> bits (\<open>bits \<le> 64\<close> is a \<open>static_assert\<close>).
\<close>

definition ksv_string_to_bitset :: "string \<Rightarrow> 'a::len word option" where
  "ksv_string_to_bitset s = map_option ucast (fill_fields (string_to_convert s) [0..<16] 0)"

text \<open>
  The value the \<open>k\<close>-th assignment passes to its bit-field: \<open>char_to_uint8_t\<close> of the
  character \<open>string_to_convert[k]\<close>.
\<close>

definition digit_at :: "string \<Rightarrow> nat \<Rightarrow> 8 word" where
  "digit_at str k = (case str_at str k of Some c \<Rightarrow> char_to_uint8_t c | None \<Rightarrow> 0)"

section \<open>Random KSV (\<open>random_ksv\<close>, hdcp.cpp 198-214)\<close>

text \<open>
  \<open>std::shuffle\<close> with a seed from \<open>std::random_device\<close> is not a function of the
  program's input: the model takes the shuffled vector \<open>indices\<close> as its argument. Before
  the shuffle it holds \<open>0, 1, ..., 39\<close> (\<open>std::iota\<close>), so afterwards it is a permutation of
  these, which the theorems assume. The loop sets \<open>shuffled_bs[i] = bs[indices[i]]\<close>.
\<close>

fun shuffle_loop :: "ksv \<Rightarrow> nat list \<Rightarrow> nat list \<Rightarrow> ksv \<Rightarrow> ksv" where
  "shuffle_loop bs indices [] shuffled_bs = shuffled_bs"
| "shuffle_loop bs indices (i # js) shuffled_bs =
     shuffle_loop bs indices js
       (if bit bs (indices ! i) then set_bit i shuffled_bs else unset_bit i shuffled_bs)"

definition random_ksv :: "nat list \<Rightarrow> ksv" where
  "random_ksv indices = shuffle_loop 0x00000fffff indices [0..<40] 0"

section \<open>Reference notions of the specification\<close>

text \<open>
  A string read as a hexadecimal number, most significant digit first, every character
  counting with the digit value the parser gives it.
\<close>

definition hex_number :: "string \<Rightarrow> nat" where
  "hex_number s = foldl (\<lambda>acc c. acc * 16 + unat (char_to_uint8_t c)) 0 s"

text \<open>The characters the parser accepts as digits.\<close>

definition is_hex_digit :: "char \<Rightarrow> bool" where
  "is_hex_digit c = (c \<in> set ''0123456789abcdef'')"

text \<open>The transposed matrix: its entry \<open>i * 40 + z\<close> is entry \<open>z * 40 + i\<close> of the argument.\<close>

definition transpose40 :: "key56 list \<Rightarrow> key56 list" where
  "transpose40 key = map (\<lambda>n. key ! ((n mod 40) * 40 + n div 40)) [0..<1600]"

text \<open>
  The sum the derivations compute for one output slot: the entries \<open>key[idx z]\<close> over
  the bit positions \<open>z\<close> that are set in the KSV, as an exact natural number.
\<close>

definition selected_sum :: "ksv \<Rightarrow> key56 list \<Rightarrow> (nat \<Rightarrow> nat) \<Rightarrow> nat" where
  "selected_sum ksv key idx = (\<Sum>z | z < 40 \<and> bit ksv z. unat (key ! idx z))"

section \<open>Properties of the key derivation\<close>

lemma accumulate_sum:
  "\<forall>z\<in>set zs. idx z < length key \<Longrightarrow>
   accumulate ksv key idx zs temp =
     Some (temp + word_of_nat (\<Sum>z\<leftarrow>filter (bit ksv) zs. unat (key ! idx z)))"
  by (induction zs arbitrary: temp) (simp_all add: key_at_def add.assoc)

lemma sum_list_bound:
  "(\<Sum>z\<leftarrow>filter P zs. unat ((key :: key56 list) ! idx z)) \<le> length zs * (2 ^ 56 - 1)"
proof (induction zs)
  case Nil
  show ?case by simp
next
  case (Cons z zs)
  have "unat (key ! idx z) < 2 ^ 56"
    using unsigned_less [of "key ! idx z"] by simp
  with Cons show ?case by simp
qed

lemma filter_sum_set:
  "(\<Sum>z\<leftarrow>filter P [0..<n]. f z) = (\<Sum>z | z < n \<and> P z. (f z :: nat))"
proof -
  have "distinct (filter P [0..<n])" by simp
  then have "(\<Sum>z\<leftarrow>filter P [0..<n]. f z) = sum f (set (filter P [0..<n]))"
    by (rule sum_list_distinct_conv_sum_set)
  moreover have "set (filter P [0..<n]) = {z. z < n \<and> P z}" by auto
  ultimately show ?thesis by simp
qed

text \<open>Forty summands below \<open>2^56\<close> stay below \<open>2^64\<close>.\<close>

lemma selected_sum_bound: "selected_sum ksv key idx < 2 ^ 64"
proof -
  have "selected_sum ksv key idx \<le> length [0..<40] * (2 ^ 56 - 1)"
    unfolding selected_sum_def filter_sum_set [symmetric] by (rule sum_list_bound)
  also have "\<dots> < 2 ^ 64" by simp
  finally show ?thesis .
qed

lemma accumulate_exact:
  assumes "\<forall>z<40. idx z < length key"
  shows "\<exists>temp. accumulate ksv key idx [0..<40] 0 = Some temp \<and>
           unat temp = selected_sum ksv key idx"
proof -
  have "\<forall>z\<in>set [0..<40]. idx z < length key" using assms by simp
  then have a: "accumulate ksv key idx [0..<40] 0 =
      Some (0 + word_of_nat (\<Sum>z\<leftarrow>filter (bit ksv) [0..<40]. unat (key ! idx z)))"
    by (rule accumulate_sum)
  have "unat (word_of_nat (selected_sum ksv key idx) :: 64 word) = selected_sum ksv key idx"
    using selected_sum_bound [of ksv key idx] by (simp add: unat_of_nat)
  with a show ?thesis by (simp add: filter_sum_set selected_sum_def)
qed

lemma unat_mask56:
  "unat (ucast ((temp :: 64 word) AND 0xffffffffffffff) :: key56) = unat temp mod 2 ^ 56"
proof -
  have "(0xffffffffffffff :: 64 word) = mask 56" by (simp add: mask_eq_exp_minus_1)
  then have "temp AND 0xffffffffffffff = take_bit 56 temp"
    by (simp add: take_bit_eq_mask)
  then have "unat (ucast (temp AND 0xffffffffffffff) :: key56) =
      take_bit 56 (take_bit 56 (unat temp))"
    by (simp add: unsigned_ucast_eq unsigned_take_bit_eq)
  then show ?thesis by (simp add: take_bit_eq_mod)
qed

lemma derive_entries:
  assumes "\<forall>i\<in>set js. \<forall>z<40. idx i z < length key"
  shows "\<exists>r. derive ksv key idx js = Some r \<and> length r = length js \<and>
           (\<forall>n<length js. unat (r ! n) = selected_sum ksv key (idx (js ! n)) mod 2 ^ 56)"
  using assms
proof (induction js)
  case Nil
  show ?case by simp
next
  case (Cons i js)
  from Cons.prems have "\<forall>z<40. idx i z < length key" by simp
  then obtain temp where t: "accumulate ksv key (idx i) [0..<40] 0 = Some temp"
      "unat temp = selected_sum ksv key (idx i)"
    using accumulate_exact by blast
  from Cons obtain r where r: "derive ksv key idx js = Some r" "length r = length js"
      "\<forall>n<length js. unat (r ! n) = selected_sum ksv key (idx (js ! n)) mod 2 ^ 56"
    by auto
  have "\<forall>n<length (i # js). unat ((ucast (temp AND 0xffffffffffffff) # r) ! n) =
      selected_sum ksv key (idx ((i # js) ! n)) mod 2 ^ 56"
  proof (intro allI impI)
    fix n assume "n < length (i # js)"
    then show "unat ((ucast (temp AND 0xffffffffffffff) # r) ! n) =
      selected_sum ksv key (idx ((i # js) ! n)) mod 2 ^ 56"
      using r(3) t(2) by (cases n) (simp_all add: unat_mask56)
  qed
  with t(1) r(1,2) show ?case by simp
qed

lemma column_index_bound: "i < 40 \<Longrightarrow> z < 40 \<Longrightarrow> z * 40 + i < (1600::nat)"
  by linarith

lemma row_index_bound: "i < 40 \<Longrightarrow> z < 40 \<Longrightarrow> i * 40 + z < (1600::nat)"
  by linarith

text \<open>The two loops read the matrix only through \<open>key_at\<close> at the indices they compute.\<close>

lemma accumulate_cong:
  "\<forall>z\<in>set zs. key_at key (idx z) = key_at key' (idx' z) \<Longrightarrow>
   accumulate ksv key idx zs temp = accumulate ksv key' idx' zs temp"
  by (induction zs arbitrary: temp) (simp_all split: option.splits)

lemma derive_cong:
  "\<forall>i\<in>set js. \<forall>z<40. key_at key (idx i z) = key_at key' (idx' i z) \<Longrightarrow>
   derive ksv key idx js = derive ksv key' idx' js"
proof (induction js)
  case Nil
  show ?case by simp
next
  case (Cons i js)
  have "\<forall>z\<in>set [0..<40]. key_at key (idx i z) = key_at key' (idx' i z)"
    using Cons.prems by simp
  then have "accumulate ksv key (idx i) [0..<40] 0 = accumulate ksv key' (idx' i) [0..<40] 0"
    by (rule accumulate_cong)
  moreover have "derive ksv key idx js = derive ksv key' idx' js"
    using Cons by simp
  ultimately show ?case by (simp cong: option.case_cong)
qed

lemma transpose40_entries:
  assumes "length key = 1600"
  shows "length (transpose40 key) = 1600 \<and>
     (\<forall>i<40. \<forall>z<40. transpose40 key ! (i * 40 + z) = key ! (z * 40 + i))"
proof -
  have "transpose40 key ! (i * 40 + z) = key ! (z * 40 + i)" if "i < 40" "z < 40" for i z
  proof -
    have "i * 40 + z < 1600" using that by (rule row_index_bound)
    then show ?thesis using that by (simp add: transpose40_def)
  qed
  then show ?thesis by (simp add: transpose40_def)
qed

text \<open>The canonical pattern \<open>0x00000fffff\<close>: bits 0 to 19 are set.\<close>

lemma canonical_mask: "(0xfffff :: ksv) = mask 20"
  by (simp add: mask_eq_exp_minus_1)

lemma bit_canonical: "bit (0xfffff :: ksv) = (\<lambda>n. n < 20)"
  unfolding canonical_mask by (auto simp add: fun_eq_iff bit_mask_iff)

lemma low_filter: "filter (\<lambda>x. x < 20) [0..<40] = [0..<20]"
  by code_simp

lemma count_bits_canonical: "count_bits (0xfffff :: ksv) = 20"
  unfolding count_bits_def bit_canonical by (simp add: low_filter)

lemma selected_sum_canonical:
  assumes "\<forall>z<20. idx z < n"
  shows "selected_sum 0xfffff (replicate n c) idx = 20 * unat c"
proof -
  have "{z. z < 40 \<and> bit (0xfffff :: ksv) z} = {..<20}"
    unfolding bit_canonical by auto
  then have "selected_sum 0xfffff (replicate n c) idx = (\<Sum>z<20. unat (replicate n c ! idx z))"
    by (simp add: selected_sum_def)
  also have "\<dots> = (\<Sum>z<(20::nat). unat c)"
    using assms by (intro sum.cong) simp_all
  finally show ?thesis by simp
qed

lemma all_entries:
  "length r = n \<Longrightarrow> \<forall>i<n. unat (r ! i) = unat (c :: key56) \<Longrightarrow> r = replicate n c"
  by (simp add: list_eq_iff_nth_eq word_unat_eq_iff)

text \<open>
  C2. For a 1600-entry matrix, \<open>generate_source\<close> returns a 40-entry array whose entry
  \<open>i\<close> is the sum of the matrix entries at \<open>z * 40 + i\<close> over the set bits \<open>z\<close> of the KSV,
  modulo \<open>2^56\<close>; the 64-bit accumulator holds that sum exactly when the inner loop ends.
\<close>

theorem generate_source_spec:
  assumes "length key = 1600"
  shows "\<exists>r. generate_source ksv key = Some r \<and> length r = 40 \<and>
     (\<forall>i<40. unat (r ! i) =
        (\<Sum>z | z < 40 \<and> bit ksv z. unat (key ! (z * 40 + i))) mod 2 ^ 56) \<and>
     (\<forall>i<40. \<exists>temp. source_temp ksv key i = Some temp \<and>
        unat temp = (\<Sum>z | z < 40 \<and> bit ksv z. unat (key ! (z * 40 + i))))"
proof -
  have b: "\<forall>i<40. \<forall>z<40. z * 40 + i < length key"
    using assms column_index_bound by simp
  then have "\<forall>i\<in>set [0..<40]. \<forall>z<40. z * 40 + i < length key" by simp
  from derive_entries [where idx = "\<lambda>i z. z * 40 + i", OF this, of ksv]
  obtain r where r: "generate_source ksv key = Some r" "length r = 40"
    "\<forall>n<40. unat (r ! n) = selected_sum ksv key (\<lambda>z. z * 40 + n) mod 2 ^ 56"
    by (auto simp: generate_source_def)
  have "\<forall>i<40. \<exists>temp. source_temp ksv key i = Some temp \<and>
        unat temp = selected_sum ksv key (\<lambda>z. z * 40 + i)"
    using b accumulate_exact [of "\<lambda>z. z * 40 + i" key ksv for i]
    by (simp add: source_temp_def)
  with r show ?thesis by (simp add: selected_sum_def)
qed

text \<open>
  The known vector of the specification: with the canonical KSV and a matrix of ones,
  every source entry is 20.
\<close>

theorem generate_source_spec_witness:
  "length (replicate 1600 (1 :: key56)) = 1600 \<and>
   generate_source 0xfffff (replicate 1600 1) = Some (replicate 40 20)"
proof -
  have h: "length (replicate 1600 (1 :: key56)) = 1600" by simp
  from generate_source_spec [OF h, of "0xfffff"]
  obtain r where r: "generate_source 0xfffff (replicate 1600 1) = Some r" "length r = 40"
    "\<forall>i<40. unat (r ! i) = selected_sum 0xfffff (replicate 1600 1) (\<lambda>z. z * 40 + i) mod 2 ^ 56"
    unfolding selected_sum_def by blast
  have "\<forall>i<40. selected_sum 0xfffff (replicate 1600 (1::key56)) (\<lambda>z. z * 40 + i) = 20 * unat (1::key56)"
  proof (intro allI impI)
    fix i :: nat assume "i < 40"
    then have "\<forall>z<20. z * 40 + i < 1600" by simp
    then show "selected_sum 0xfffff (replicate 1600 (1::key56)) (\<lambda>z. z * 40 + i) = 20 * unat (1::key56)"
      by (rule selected_sum_canonical)
  qed
  with r(3) have "\<forall>i<40. unat (r ! i) = unat (20 :: key56)" by simp
  with r(2) have "r = replicate 40 20" by (rule all_entries)
  with r(1) h show ?thesis by simp
qed

text \<open>
  C3. For a 1600-entry matrix, \<open>generate_sink\<close> returns a 40-entry array computed in the
  same way (exact 64-bit accumulation, then reduction modulo \<open>2^56\<close>), with the matrix
  entry for output slot \<open>i\<close> and set bit \<open>z\<close> taken at \<open>i * 40 + z\<close>.
\<close>

theorem generate_sink_spec:
  assumes "length key = 1600"
  shows "\<exists>r. generate_sink ksv key = Some r \<and> length r = 40 \<and>
     (\<forall>i<40. unat (r ! i) =
        (\<Sum>z | z < 40 \<and> bit ksv z. unat (key ! (i * 40 + z))) mod 2 ^ 56) \<and>
     (\<forall>i<40. \<exists>temp. sink_temp ksv key i = Some temp \<and>
        unat temp = (\<Sum>z | z < 40 \<and> bit ksv z. unat (key ! (i * 40 + z))))"
proof -
  have b: "\<forall>i<40. \<forall>z<40. i * 40 + z < length key"
    using assms row_index_bound by simp
  then have "\<forall>i\<in>set [0..<40]. \<forall>z<40. i * 40 + z < length key" by simp
  from derive_entries [where idx = "\<lambda>i z. i * 40 + z", OF this, of ksv]
  obtain r where r: "generate_sink ksv key = Some r" "length r = 40"
    "\<forall>n<40. unat (r ! n) = selected_sum ksv key (\<lambda>z. n * 40 + z) mod 2 ^ 56"
    by (auto simp: generate_sink_def)
  have "\<forall>i<40. \<exists>temp. sink_temp ksv key i = Some temp \<and>
        unat temp = selected_sum ksv key (\<lambda>z. i * 40 + z)"
    using b accumulate_exact [of "\<lambda>z. i * 40 + z" key ksv for i]
    by (simp add: sink_temp_def)
  with r show ?thesis by (simp add: selected_sum_def)
qed

text \<open>
  The wrap-around vector of the specification: with the canonical KSV and a matrix whose
  entries are all \<open>2^56 - 1\<close>, every sink entry is \<open>20 * (2^56 - 1) mod 2^56 = 2^56 - 20\<close>.
\<close>

theorem generate_sink_spec_witness:
  "length (replicate 1600 (0xffffffffffffff :: key56)) = 1600 \<and>
   generate_sink 0xfffff (replicate 1600 0xffffffffffffff) = Some (replicate 40 0xffffffffffffec)"
proof -
  let ?key = "replicate 1600 (0xffffffffffffff :: key56)"
  have h: "length ?key = 1600" by simp
  from generate_sink_spec [OF h, of "0xfffff"]
  obtain r where r: "generate_sink 0xfffff ?key = Some r" "length r = 40"
    "\<forall>i<40. unat (r ! i) = selected_sum 0xfffff ?key (\<lambda>z. i * 40 + z) mod 2 ^ 56"
    unfolding selected_sum_def by blast
  have "\<forall>i<40. selected_sum 0xfffff ?key (\<lambda>z. i * 40 + z) = 20 * unat (0xffffffffffffff :: key56)"
  proof (intro allI impI)
    fix i :: nat assume "i < 40"
    then have "\<forall>z<20. i * 40 + z < 1600" by simp
    then show "selected_sum 0xfffff ?key (\<lambda>z. i * 40 + z) = 20 * unat (0xffffffffffffff :: key56)"
      by (rule selected_sum_canonical)
  qed
  with r(3) have "\<forall>i<40. unat (r ! i) = unat (0xffffffffffffec :: key56)" by simp
  with r(2) have "r = replicate 40 0xffffffffffffec" by (rule all_entries)
  with r(1) h show ?thesis by simp
qed

text \<open>
  C8. If \<open>T\<close> is the transpose of the 1600-entry matrix \<open>M\<close>, that is
  \<open>T[i * 40 + z] = M[z * 40 + i]\<close> for all \<open>i, z < 40\<close>, then \<open>generate_source\<close> on
  \<open>M\<close> and \<open>generate_sink\<close> on \<open>T\<close> return the same array.
\<close>

theorem source_is_sink_of_transpose:
  assumes "length M = 1600" and "length T = 1600"
    and "\<forall>i<40. \<forall>z<40. T ! (i * 40 + z) = M ! (z * 40 + i)"
  shows "\<exists>r. generate_source ksv M = Some r \<and> generate_sink ksv T = Some r"
proof -
  have "key_at M (z * 40 + i) = key_at T (i * 40 + z)" if "i < 40" "z < 40" for i z
    using that assms column_index_bound [OF that] row_index_bound [OF that]
    by (simp add: key_at_def)
  then have "\<forall>i\<in>set [0..<40]. \<forall>z<40. key_at M (z * 40 + i) = key_at T (i * 40 + z)"
    by simp
  then have "derive ksv M (\<lambda>i z. z * 40 + i) [0..<40] = derive ksv T (\<lambda>i z. i * 40 + z) [0..<40]"
    by (rule derive_cong)
  then have e: "generate_source ksv M = generate_sink ksv T"
    by (simp add: generate_source_def generate_sink_def)
  have "\<forall>i\<in>set [0..<40]. \<forall>z<40. i * 40 + z < length T"
    using assms(2) row_index_bound by simp
  from derive_entries [where idx = "\<lambda>i z. i * 40 + z", OF this, of ksv]
  obtain r where "generate_sink ksv T = Some r"
    by (auto simp: generate_sink_def)
  with e show ?thesis by simp
qed

theorem source_is_sink_of_transpose_witness:
  "length (map word_of_nat [0..<1600] :: key56 list) = 1600 \<and>
   length (transpose40 (map word_of_nat [0..<1600])) = 1600 \<and>
   list_all (\<lambda>i. list_all (\<lambda>z. transpose40 (map word_of_nat [0..<1600]) ! (i * 40 + z) =
        (map word_of_nat [0..<1600] :: key56 list) ! (z * 40 + i)) [0..<40]) [0..<40] \<and>
   (\<exists>r. generate_source 0xfffff (map word_of_nat [0..<1600]) = Some r \<and>
        generate_sink 0xfffff (transpose40 (map word_of_nat [0..<1600])) = Some r)"
proof -
  let ?M = "map word_of_nat [0..<1600] :: key56 list"
  have h: "length ?M = 1600" by simp
  note t = transpose40_entries [OF h]
  from t have t1: "length (transpose40 ?M) = 1600" and
    t2: "\<forall>i<40. \<forall>z<40. transpose40 ?M ! (i * 40 + z) = ?M ! (z * 40 + i)" by blast+
  from t2 have t3: "list_all (\<lambda>i. list_all (\<lambda>z. transpose40 ?M ! (i * 40 + z) =
        ?M ! (z * 40 + i)) [0..<40]) [0..<40]"
    by (simp add: list_all_iff)
  from source_is_sink_of_transpose [OF h t1 t2, of "0xfffff"] h t1 t3
  show ?thesis by blast
qed

text \<open>
  C10. With \<open>i\<close> and \<open>z\<close> below 40 the indices \<open>z * 40 + i\<close> and \<open>i * 40 + z\<close> are below
  1600, the read of a 1600-entry matrix there is defined, and both derivations return
  a result for every KSV and every such matrix.
\<close>

theorem derivation_in_bounds:
  assumes "length key = 1600"
  shows "(\<forall>i<40. \<forall>z<40. z * 40 + i < 1600 \<and> key_at key (z * 40 + i) = Some (key ! (z * 40 + i)) \<and>
                          i * 40 + z < 1600 \<and> key_at key (i * 40 + z) = Some (key ! (i * 40 + z))) \<and>
         (\<exists>r. generate_source ksv key = Some r) \<and>
         (\<exists>r. generate_sink ksv key = Some r)"
proof -
  have a: "\<forall>i<40. \<forall>z<40. z * 40 + i < 1600 \<and> i * 40 + z < (1600::nat)"
    using column_index_bound row_index_bound by simp
  then have "\<forall>i\<in>set [0..<40]. \<forall>z<40. z * 40 + i < length key"
    and "\<forall>i\<in>set [0..<40]. \<forall>z<40. i * 40 + z < length key"
    using assms by simp_all
  then have "\<exists>r. generate_source ksv key = Some r" and "\<exists>r. generate_sink ksv key = Some r"
    using derive_entries [where idx = "\<lambda>i z. z * 40 + i" and key = key and ksv = ksv and js = "[0..<40]"]
      derive_entries [where idx = "\<lambda>i z. i * 40 + z" and key = key and ksv = ksv and js = "[0..<40]"]
    unfolding generate_source_def generate_sink_def by blast+
  with a assms show ?thesis by (simp add: key_at_def)
qed

theorem derivation_in_bounds_witness:
  "length (replicate 1600 (0 :: key56)) = 1600 \<and>
   (\<exists>r. generate_source 0xffffffffff (replicate 1600 0) = Some r) \<and>
   (\<exists>r. generate_sink 0xffffffffff (replicate 1600 0) = Some r)"
proof -
  have h: "length (replicate 1600 (0 :: key56)) = 1600" by simp
  from derivation_in_bounds [OF h, of "0xffffffffff"] h show ?thesis by blast
qed

text \<open>
  The model does fail on a read past the end: with a matrix one entry short, the sink
  derivation of a KSV with bit 39 set reads entry 1599 and has no result.
\<close>

lemma accumulate_out_of_range:
  "z \<in> set zs \<Longrightarrow> bit ksv z \<Longrightarrow> length key \<le> idx z \<Longrightarrow> accumulate ksv key idx zs temp = None"
  by (induction zs arbitrary: temp) (auto simp: key_at_def split: option.splits)

lemma derive_out_of_range:
  "i \<in> set js \<Longrightarrow> z < 40 \<Longrightarrow> bit ksv z \<Longrightarrow> length key \<le> idx i z \<Longrightarrow> derive ksv key idx js = None"
proof (induction js)
  case Nil
  then show ?case by simp
next
  case (Cons j js)
  show ?case
  proof (cases "j = i")
    case True
    have "z \<in> set [0..<40]" using Cons.prems by simp
    then have "accumulate ksv key (idx i) [0..<40] 0 = None"
      using Cons.prems accumulate_out_of_range [of z "[0..<40]" ksv key "idx i" 0] by simp
    with True show ?thesis by simp
  next
    case False
    with Cons have "derive ksv key idx js = None" by simp
    then show ?thesis by (simp split: option.splits)
  qed
qed

lemma sink_short_matrix:
  "bit ksv 39 \<Longrightarrow> length key = 1599 \<Longrightarrow> generate_sink ksv key = None"
  using derive_out_of_range [of 39 "[0..<40]" 39 ksv key "\<lambda>i z. i * 40 + z"]
  by (simp add: generate_sink_def)

section \<open>Properties of the KSV predicate\<close>

text \<open>
  C1. The header documents \<open>check_ksv\<close> as true for a correct KSV, with
  \<open>0x00000fffff\<close> as its example of a correct one. That KSV has Hamming weight 20, and
  \<open>check_ksv\<close> returns false on it: the function returns \<open>ksv.count() != 20\<close>.
\<close>

theorem check_ksv_rejects_canonical:
  "count_bits (0x00000fffff :: ksv) = 20 \<and> check_ksv 0x00000fffff = False"
  by (simp add: check_ksv_def count_bits_canonical)

section \<open>Properties of the random KSV\<close>

text \<open>Bit \<open>n\<close> of the result is bit \<open>indices[n]\<close> of the canonical pattern.\<close>

lemma bit_shuffle_loop:
  "bit (shuffle_loop bs indices js out) n \<longleftrightarrow>
     (if n \<in> set js then n < 40 \<and> bit bs (indices ! n) else bit out n)"
proof (induction js arbitrary: out)
  case Nil
  show ?case by simp
next
  case (Cons i js)
  show ?case
    by (auto simp add: Cons.IH bit_set_bit_iff bit_unset_bit_iff dest: bit_imp_le_length)
qed

lemma bit_random_ksv: "bit (random_ksv indices) = (\<lambda>n. n < 40 \<and> indices ! n < 20)"
  by (auto simp add: fun_eq_iff random_ksv_def bit_shuffle_loop bit_canonical
      dest: bit_imp_le_length)

lemma count_bits_random_ksv:
  assumes "length indices = 40"
  shows "count_bits (random_ksv indices) = length (filter (\<lambda>x. x < 20) indices)"
proof -
  have "filter (\<lambda>n. n < 40 \<and> indices ! n < 20) [0..<40] =
        filter ((\<lambda>x. x < 20) \<circ> (!) indices) [0..<40]"
    by (rule filter_cong) simp_all
  then have "count_bits (random_ksv indices) =
      length (filter (\<lambda>x. x < 20) (map ((!) indices) [0..<40]))"
    unfolding count_bits_def bit_random_ksv by (simp add: filter_map)
  moreover have "map ((!) indices) [0..<40] = indices"
    using assms map_nth [of indices] by simp
  ultimately show ?thesis by simp
qed

text \<open>
  C7. For every permutation \<open>indices\<close> of the bit positions \<open>0, ..., 39\<close>, the KSV that
  \<open>random_ksv\<close> builds from the canonical pattern \<open>0x00000fffff\<close> has Hamming weight 20.
\<close>

theorem random_ksv_weight:
  assumes "mset indices = mset [0..<40]"
  shows "count_bits (random_ksv indices) = 20"
proof -
  from assms have len: "length indices = 40"
    using mset_eq_length [of indices "[0..<40]"] by simp
  have "mset (filter (\<lambda>x. x < 20) indices) = mset (filter (\<lambda>x. x < 20) [0..<40])"
    using assms by (simp only: mset_filter)
  then have "length (filter (\<lambda>x. x < 20) indices) = length (filter (\<lambda>x. x < 20) [0..<40])"
    by (rule mset_eq_length)
  also have "\<dots> = 20" by (simp only: low_filter length_upt)
  finally show ?thesis using len by (simp add: count_bits_random_ksv)
qed

theorem random_ksv_weight_witness:
  "mset (rev [0..<40]) = mset [0..<40] \<and> count_bits (random_ksv (rev [0..<40])) = 20"
proof -
  have h: "mset (rev [0..<40]) = mset [0..<40]" by simp
  from random_ksv_weight [OF h] h show ?thesis by blast
qed

section \<open>Properties of the hexadecimal parser\<close>

lemma char_to_uint8_t_cases:
  "char_to_uint8_t c \<in> {0, 1, 2, 3, 4, 5, 6, 7, 8, 9, 10, 11, 12, 13, 14, 15}"
  by (simp add: char_to_uint8_t_def switch_cases_def)

lemma char_to_uint8_t_low: "take_bit 4 (char_to_uint8_t c) = char_to_uint8_t c"
  using char_to_uint8_t_cases [of c] by auto

lemma bit_char_to_uint8_t: "bit (char_to_uint8_t c) j \<Longrightarrow> j < 4"
proof -
  assume "bit (char_to_uint8_t c) j"
  then have "bit (take_bit 4 (char_to_uint8_t c)) j" by (simp add: char_to_uint8_t_low)
  then show "j < 4" by (simp add: bit_take_bit_iff)
qed

lemma field_mask: "(0xF :: 'a::len word) = mask 4"
  by (simp add: mask_eq_exp_minus_1)

lemma bit_set_field:
  "bit (set_field k v w) n \<longleftrightarrow>
     (if n div 4 = k then n < 64 \<and> bit v (n mod 4) else bit w n)"
proof -
  have a: "n div 4 = k \<longleftrightarrow> 4 * k \<le> n \<and> n - 4 * k < 4" by auto
  have b: "n div 4 = k \<Longrightarrow> n - 4 * k = n mod 4" by presburger
  show ?thesis
    unfolding set_field_def field_mask
    by (auto simp add: bit_simps a b dest: bit_imp_le_length)
qed

lemma fill_fields_bits:
  assumes "\<forall>k\<in>set ks. k \<le> length str"
  shows "\<exists>w. fill_fields str ks w0 = Some w \<and>
     (\<forall>n. bit w n \<longleftrightarrow>
        (if n div 4 \<in> set ks then n < 64 \<and> bit (digit_at str (n div 4)) (n mod 4) else bit w0 n))"
  using assms
proof (induction ks arbitrary: w0)
  case Nil
  show ?case by simp
next
  case (Cons k ks)
  from Cons.prems have "k \<le> length str" by simp
  then have "\<exists>c. str_at str k = Some c" by (simp add: str_at_def)
  then obtain c where c: "str_at str k = Some c" by blast
  then have d: "digit_at str k = char_to_uint8_t c" by (simp add: digit_at_def)
  from Cons.prems have "\<forall>k\<in>set ks. k \<le> length str" by simp
  from Cons.IH [OF this, of "set_field k (char_to_uint8_t c) w0"]
  obtain w where w: "fill_fields str ks (set_field k (char_to_uint8_t c) w0) = Some w"
    "\<forall>n. bit w n \<longleftrightarrow>
        (if n div 4 \<in> set ks then n < 64 \<and> bit (digit_at str (n div 4)) (n mod 4)
         else bit (set_field k (char_to_uint8_t c) w0) n)"
    by blast
  have "fill_fields str (k # ks) w0 = Some w" using c w(1) by simp
  moreover have "\<forall>n. bit w n \<longleftrightarrow>
     (if n div 4 \<in> set (k # ks) then n < 64 \<and> bit (digit_at str (n div 4)) (n mod 4)
      else bit w0 n)"
    using w(2) d by (auto simp add: bit_set_field)
  ultimately show ?case by blast
qed

lemma length_string_to_convert: "15 \<le> length (string_to_convert s)"
  by (simp add: string_to_convert_def)

lemma parse_bits:
  "\<exists>w. fill_fields (string_to_convert s) [0..<16] 0 = Some w \<and>
     (\<forall>n. bit w n \<longleftrightarrow> n < 64 \<and> bit (digit_at (string_to_convert s) (n div 4)) (n mod 4))"
proof -
  have "\<forall>k\<in>set [0..<16]. k \<le> length (string_to_convert s)"
    using length_string_to_convert [of s] by auto
  from fill_fields_bits [OF this, of 0]
  obtain w where w: "fill_fields (string_to_convert s) [0..<16] 0 = Some w"
    "\<forall>n. bit w n \<longleftrightarrow>
        (if n div 4 \<in> set [0..<16] then
           n < 64 \<and> bit (digit_at (string_to_convert s) (n div 4)) (n mod 4)
         else bit (0 :: 64 word) n)"
    by blast
  have "bit w n \<longleftrightarrow> n < 64 \<and> bit (digit_at (string_to_convert s) (n div 4)) (n mod 4)" for n
  proof (cases "n < 64")
    case True
    then have "n div 4 \<in> set [0..<16]" by auto
    with w(2) show ?thesis by simp
  next
    case False
    then show ?thesis using bit_imp_le_length [of w n] by auto
  qed
  with w(1) show ?thesis by blast
qed

lemma char_to_uint8_t_pad: "char_to_uint8_t (CHR ''0'') = 0"
  by (simp add: char_to_uint8_t_def switch_cases_def)

lemma char_to_uint8_t_nul: "char_to_uint8_t (CHR 0x00) = 0"
  by (simp add: char_to_uint8_t_def switch_cases_def)

lemma digit_at_convert:
  assumes "k < 16"
  shows "digit_at (string_to_convert s) k =
     (if k < length s then char_to_uint8_t (rev s ! k) else 0)"
proof (cases "length s < 15")
  case True
  then have str: "string_to_convert s = rev s @ replicate (15 - length s) (CHR ''0'')"
    by (simp add: string_to_convert_def)
  have len: "length (string_to_convert s) = 15" using True by (simp add: str)
  show ?thesis
  proof (cases "k < length s")
    case True
    then show ?thesis using len \<open>length s < 15\<close>
      by (simp add: digit_at_def str_at_def) (simp add: str nth_append)
  next
    case False
    show ?thesis
    proof (cases "k < 15")
      case True
      with False have "string_to_convert s ! k = CHR ''0''"
        by (simp add: str nth_append)
      with True False len show ?thesis
        by (simp add: digit_at_def str_at_def char_to_uint8_t_pad)
    next
      case False
      with assms have "k = 15" by simp
      with len \<open>\<not> k < length s\<close> show ?thesis
        by (simp add: digit_at_def str_at_def char_to_uint8_t_nul)
    qed
  qed
next
  case False
  then have str: "string_to_convert s = rev s" by (simp add: string_to_convert_def)
  show ?thesis
  proof (cases "k < length s")
    case True
    then show ?thesis by (simp add: digit_at_def str_at_def str)
  next
    case False
    with assms \<open>\<not> length s < 15\<close> have "k = length s" by simp
    then show ?thesis by (simp add: digit_at_def str_at_def str char_to_uint8_t_nul)
  qed
qed

lemma hex_number_snoc:
  "hex_number (s @ [c]) = hex_number s * 16 + unat (char_to_uint8_t c)"
  by (simp add: hex_number_def)

lemma bit_shift_digit:
  fixes a d :: nat
  assumes "d < 16"
  shows "bit (a * 16 + d) n \<longleftrightarrow> (if n < 4 then bit d n else bit a (n - 4))"
proof -
  have d: "take_bit 4 d = d" using assms by (simp add: take_bit_nat_eq_self)
  have "a * 16 + d = push_bit 4 a + take_bit 4 d" by (simp add: push_bit_eq_mult d)
  also have "\<dots> = push_bit 4 a OR take_bit 4 d"
    by (rule disjunctive_add_eq_or) (auto simp add: bit_eq_iff bit_simps)
  finally have "a * 16 + d = push_bit 4 a OR d" by (simp add: d)
  moreover have "bit d n \<Longrightarrow> n < 4"
  proof -
    assume "bit d n"
    then have "bit (take_bit 4 d) n" by (simp add: d)
    then show "n < 4" by (simp add: bit_take_bit_iff)
  qed
  ultimately show ?thesis by (auto simp add: bit_simps)
qed

lemma bit_hex_number:
  "bit (hex_number s) n \<longleftrightarrow>
     n div 4 < length s \<and> bit (char_to_uint8_t (rev s ! (n div 4))) (n mod 4)"
proof (induction s arbitrary: n rule: rev_induct)
  case Nil
  show ?case by (simp add: hex_number_def)
next
  case (snoc c s)
  have lt: "unat (char_to_uint8_t c) < 16"
    using char_to_uint8_t_cases [of c] by auto
  show ?case
  proof (cases "n < 4")
    case True
    then show ?thesis
      by (simp add: hex_number_snoc bit_shift_digit [OF lt] bit_unsigned_iff)
  next
    case False
    then have "(n - 4) div 4 = n div 4 - 1" "(n - 4) mod 4 = n mod 4" "0 < n div 4"
      by (auto simp add: mod_if div_if)
    moreover from this have "n div 4 - 1 < length s \<longleftrightarrow> n div 4 < Suc (length s)"
      by arith
    ultimately show ?thesis using False
      by (simp add: hex_number_snoc bit_shift_digit [OF lt] snoc.IH nth_Cons')
  qed
qed

lemma parse_value:
  assumes "LENGTH('a::len) \<le> 64"
  shows "ksv_string_to_bitset s = Some (word_of_nat (hex_number s) :: 'a word)"
proof -
  from parse_bits [of s] obtain w where
    w: "fill_fields (string_to_convert s) [0..<16] 0 = Some w"
      "\<forall>n. bit w n \<longleftrightarrow> n < 64 \<and> bit (digit_at (string_to_convert s) (n div 4)) (n mod 4)"
    by blast
  have "(ucast w :: 'a word) = word_of_nat (hex_number s)"
  proof (rule bit_word_eqI)
    fix n assume n: "n < LENGTH('a)"
    with assms have "n < 64" by simp
    then have k: "n div 4 < 16" by auto
    have "bit (ucast w :: 'a word) n \<longleftrightarrow> bit w n"
      using n by (simp add: bit_ucast_iff)
    also have "\<dots> \<longleftrightarrow> bit (digit_at (string_to_convert s) (n div 4)) (n mod 4)"
      using w(2) \<open>n < 64\<close> by simp
    also have "\<dots> \<longleftrightarrow> bit (hex_number s) n"
      by (simp add: digit_at_convert [OF k] bit_hex_number)
    also have "\<dots> \<longleftrightarrow> bit (word_of_nat (hex_number s) :: 'a word) n"
      using n by (simp add: bit_simps)
    finally show "bit (ucast w :: 'a word) n \<longleftrightarrow> bit (word_of_nat (hex_number s) :: 'a word) n" .
  qed
  with w(1) show ?thesis by (simp add: ksv_string_to_bitset_def)
qed

lemma parse_determined:
  assumes "\<forall>k<16. digit_at (string_to_convert s) k = digit_at (string_to_convert s') k"
  shows "ksv_string_to_bitset s = (ksv_string_to_bitset s' :: 'a::len word option)"
proof -
  from parse_bits [of s] obtain w where
    w: "fill_fields (string_to_convert s) [0..<16] 0 = Some w"
      "\<forall>n. bit w n \<longleftrightarrow> n < 64 \<and> bit (digit_at (string_to_convert s) (n div 4)) (n mod 4)"
    by blast
  from parse_bits [of s'] obtain w' where
    w': "fill_fields (string_to_convert s') [0..<16] 0 = Some w'"
      "\<forall>n. bit w' n \<longleftrightarrow> n < 64 \<and> bit (digit_at (string_to_convert s') (n div 4)) (n mod 4)"
    by blast
  have "w = w'"
  proof (rule bit_word_eqI)
    fix n assume "n < LENGTH(64)"
    then have "n div 4 < 16" by auto
    with assms w(2) w'(2) show "bit w n \<longleftrightarrow> bit w' n" by simp
  qed
  with w(1) w'(1) show ?thesis by (simp add: ksv_string_to_bitset_def)
qed

lemma parse_total: "\<exists>v :: 'a::len word. ksv_string_to_bitset s = Some v"
  using parse_bits [of s] by (auto simp add: ksv_string_to_bitset_def)

lemma char_to_uint8_t_invalid: "\<not> is_hex_digit c \<Longrightarrow> char_to_uint8_t c = 0"
  by (simp add: is_hex_digit_def char_to_uint8_t_def switch_cases_def)

lemma hex_number_1f: "hex_number ''1f'' = 31"
  by (simp add: hex_number_def char_to_uint8_t_def switch_cases_def)

lemma hex_number_16: "hex_number ''123456789abcdef0'' = 0x123456789abcdef0"
  by (simp add: hex_number_def char_to_uint8_t_def switch_cases_def)

text \<open>
  C5. The parser right-aligns its input: a string shorter than 15 characters is padded
  on the left with \<open>0\<close> up to 15 characters, a string of 15 or more is taken as it is, and
  for each of the widths 40, 56 and 64 the result is the input read as a hexadecimal
  number, most significant digit first, reduced modulo \<open>2^N\<close>. The threshold is 15 at
  every width; a 15-character input at width 64 is not padded, and its sixteenth digit
  is the null character that \<open>string_to_convert[15]\<close> reads, which counts as 0.
\<close>

theorem parser_right_aligns:
  "(length s < 15 \<longrightarrow>
      string_to_convert s = rev (replicate (15 - length s) (CHR ''0'') @ s)) \<and>
   (15 \<le> length s \<longrightarrow> string_to_convert s = rev s) \<and>
   (\<exists>v :: 40 word. ksv_string_to_bitset s = Some v \<and> unat v = hex_number s mod 2 ^ 40) \<and>
   (\<exists>v :: 56 word. ksv_string_to_bitset s = Some v \<and> unat v = hex_number s mod 2 ^ 56) \<and>
   (\<exists>v :: 64 word. ksv_string_to_bitset s = Some v \<and> unat v = hex_number s mod 2 ^ 64)"
proof -
  have "ksv_string_to_bitset s = Some (word_of_nat (hex_number s) :: 40 word)"
    and "ksv_string_to_bitset s = Some (word_of_nat (hex_number s) :: 56 word)"
    and "ksv_string_to_bitset s = Some (word_of_nat (hex_number s) :: 64 word)"
    by (rule parse_value, simp)+
  then show ?thesis by (simp add: string_to_convert_def unat_of_nat)
qed

theorem parser_right_aligns_witness:
  "length ''1f'' < 15 \<and> string_to_convert ''1f'' = ''f10000000000000'' \<and>
   ksv_string_to_bitset ''1f'' = Some (0x1f :: 40 word) \<and>
   15 \<le> length ''123456789abcdef0'' \<and>
   string_to_convert ''123456789abcdef0'' = ''0fedcba987654321'' \<and>
   ksv_string_to_bitset ''123456789abcdef0'' = Some (0x123456789abcdef0 :: 64 word) \<and>
   ksv_string_to_bitset ''123456789abcdef0'' = Some (0x3456789abcdef0 :: 56 word)"
proof -
  have a: "(v :: 40 word) = 0x1f" if "unat v = hex_number ''1f'' mod 2 ^ 40" for v
    using that by (simp add: hex_number_1f word_unat_eq_iff)
  have b: "(v :: 64 word) = 0x123456789abcdef0"
    if "unat v = hex_number ''123456789abcdef0'' mod 2 ^ 64" for v
    using that by (simp add: hex_number_16 word_unat_eq_iff)
  have c: "(v :: 56 word) = 0x3456789abcdef0"
    if "unat v = hex_number ''123456789abcdef0'' mod 2 ^ 56" for v
    using that by (simp add: hex_number_16 word_unat_eq_iff)
  have p: "replicate 13 (CHR ''0'') = ''0000000000000''" by (simp add: numeral_eq_Suc)
  from parser_right_aligns [of "''1f''"] parser_right_aligns [of "''123456789abcdef0''"]
  show ?thesis using a b c p by auto
qed

text \<open>
  C6. \<open>char_to_uint8_t\<close> maps every character outside \<open>0-9a-f\<close> to 0, the parser returns
  a value for every input string, and replacing each such character of the input by
  \<open>0\<close> does not change the result.
\<close>

theorem invalid_characters_are_zero:
  "(\<not> is_hex_digit c \<longrightarrow> char_to_uint8_t c = 0) \<and>
   (\<exists>v :: 'a::len word. ksv_string_to_bitset s = Some v) \<and>
   (ksv_string_to_bitset (map (\<lambda>c. if is_hex_digit c then c else CHR ''0'') s) =
      (ksv_string_to_bitset s :: 'a word option))"
proof -
  let ?f = "\<lambda>c. if is_hex_digit c then c else CHR ''0''"
  have f: "char_to_uint8_t (?f c) = char_to_uint8_t c" for c
    by (simp add: char_to_uint8_t_invalid char_to_uint8_t_pad)
  have "digit_at (string_to_convert (map ?f s)) k = digit_at (string_to_convert s) k"
    if "k < 16" for k
    using that by (simp add: digit_at_convert rev_map f)
  then have "ksv_string_to_bitset (map ?f s) = (ksv_string_to_bitset s :: 'a word option)"
    by (intro parse_determined) simp
  then show ?thesis
    using parse_total [of s] char_to_uint8_t_invalid [of c] by blast
qed

theorem invalid_characters_are_zero_witness:
  "\<not> is_hex_digit (CHR ''A'') \<and> char_to_uint8_t (CHR ''A'') = 0 \<and>
   (\<exists>v :: 40 word. ksv_string_to_bitset ''00000FFFFF'' = Some v) \<and>
   ksv_string_to_bitset ''0G0ff'' = (ksv_string_to_bitset ''000ff'' :: 40 word option)"
proof -
  have h: "\<not> is_hex_digit (CHR ''A'')" by (simp add: is_hex_digit_def)
  have m: "map (\<lambda>c. if is_hex_digit c then c else CHR ''0'') ''0G0ff'' = ''000ff''"
    by (simp add: is_hex_digit_def)
  note t1 = invalid_characters_are_zero [of "CHR ''A''" "''00000FFFFF''", where ?'a = 40]
  note t2 = invalid_characters_are_zero [of "CHR ''A''" "''0G0ff''", where ?'a = 40]
  from t1 h have "char_to_uint8_t (CHR ''A'') = 0" by blast
  moreover from t1 have "\<exists>v :: 40 word. ksv_string_to_bitset ''00000FFFFF'' = Some v" by blast
  moreover from t2 have "ksv_string_to_bitset ''0G0ff'' =
      (ksv_string_to_bitset ''000ff'' :: 40 word option)"
    unfolding m by simp
  ultimately show ?thesis using h by blast
qed

text \<open>
  C9. Two strings of at least 16 characters that agree on their last 16 characters parse
  to the same value, at every width.
\<close>

theorem only_last_sixteen_matter:
  assumes "16 \<le> length s" and "16 \<le> length s'"
    and "drop (length s - 16) s = drop (length s' - 16) s'"
  shows "ksv_string_to_bitset s = (ksv_string_to_bitset s' :: 'a::len word option)"
proof (rule parse_determined, intro allI impI)
  fix k :: nat assume k: "k < 16"
  have "take 16 (rev s) = take 16 (rev s')"
    using assms(3) by (simp add: take_rev)
  then have "take 16 (rev s) ! k = take 16 (rev s') ! k" by simp
  with k have "rev s ! k = rev s' ! k" by simp
  with k assms(1,2)
  show "digit_at (string_to_convert s) k = digit_at (string_to_convert s') k"
    by (simp add: digit_at_convert)
qed

theorem only_last_sixteen_matter_witness:
  "16 \<le> length ''zz123456789abcdef0'' \<and> 16 \<le> length ''123456789abcdef0'' \<and>
   drop (length ''zz123456789abcdef0'' - 16) ''zz123456789abcdef0'' =
     drop (length ''123456789abcdef0'' - 16) ''123456789abcdef0'' \<and>
   ksv_string_to_bitset ''zz123456789abcdef0'' =
     (ksv_string_to_bitset ''123456789abcdef0'' :: 64 word option)"
proof -
  have h1: "16 \<le> length ''zz123456789abcdef0''" by simp
  have h2: "16 \<le> length ''123456789abcdef0''" by simp
  have h3: "drop (length ''zz123456789abcdef0'' - 16) ''zz123456789abcdef0'' =
     drop (length ''123456789abcdef0'' - 16) ''123456789abcdef0''" by simp
  from only_last_sixteen_matter [OF h1 h2 h3, where ?'a = 64] h1 h2 h3
  show ?thesis by blast
qed

section \<open>Properties of the hexadecimal rendering\<close>

text \<open>Bit \<open>j\<close> of the nibble of output position \<open>i\<close> is bit \<open>bits - 1 - 4i - (3 - j)\<close> of the vector.\<close>

lemma bit_nibble_loop:
  "bit (nibble_loop (num :: 'a::len word) i ks nv) j \<longleftrightarrow>
     bit nv j \<or> (j < 8 \<and> (\<exists>k\<in>set ks. j = 3 - k \<and> bit num ((LENGTH('a) - 1) - (i * 4) - k)))"
proof (induction ks arbitrary: nv)
  case Nil
  show ?case by simp
next
  case (Cons k ks)
  have "bit (push_bit (3 - k) (1 :: 8 word)) j \<longleftrightarrow> j < 8 \<and> j = 3 - k"
    by (auto simp add: bit_exp_iff)
  then show ?case by (auto simp add: Cons.IH bit_or_iff)
qed

lemma bit_nibble:
  "bit (nibble_loop (num :: 'a::len word) i [0..<4] 0) j \<longleftrightarrow>
     j < 4 \<and> bit num ((LENGTH('a) - 1) - (i * 4) - (3 - j))"
proof -
  have "(\<exists>k\<in>set [0..<4]. j = 3 - k \<and> bit num ((LENGTH('a) - 1) - (i * 4) - k)) \<longleftrightarrow>
      j < 4 \<and> bit num ((LENGTH('a) - 1) - (i * 4) - (3 - j))"
  proof
    assume "\<exists>k\<in>set [0..<4]. j = 3 - k \<and> bit num ((LENGTH('a) - 1) - (i * 4) - k)"
    then obtain k where "k < 4" "j = 3 - k" "bit num ((LENGTH('a) - 1) - (i * 4) - k)" by auto
    moreover from this have "3 - j = k" by simp
    ultimately show "j < 4 \<and> bit num ((LENGTH('a) - 1) - (i * 4) - (3 - j))" by simp
  next
    assume a: "j < 4 \<and> bit num ((LENGTH('a) - 1) - (i * 4) - (3 - j))"
    then have "3 - j \<in> set [0..<4]" and "j = 3 - (3 - j)" by auto
    with a show "\<exists>k\<in>set [0..<4]. j = 3 - k \<and> bit num ((LENGTH('a) - 1) - (i * 4) - k)"
      by blast
  qed
  moreover have "j < 4 \<Longrightarrow> j < 8" by simp
  ultimately show ?thesis unfolding bit_nibble_loop by auto
qed

text \<open>The parser reads every character of \<open>hex_map\<close> back as its index.\<close>

lemma hex_map_table:
  "list_all (\<lambda>n. char_to_uint8_t (hex_map ! n) = of_nat n \<and> is_hex_digit (hex_map ! n)) [0..<16]"
  by code_simp

lemma hex_map_inverse: "n < 16 \<Longrightarrow> char_to_uint8_t (hex_map ! n) = of_nat n"
  using hex_map_table by (simp add: list_all_iff)

lemma hex_map_digit: "n < 16 \<Longrightarrow> is_hex_digit (hex_map ! n)"
  using hex_map_table by (simp add: list_all_iff)

lemma nibble_bound: "unat (nibble_loop num i [0..<4] 0) < 16"
proof -
  let ?nv = "nibble_loop num i [0..<4] 0"
  have "take_bit 4 ?nv = ?nv"
    by (rule bit_word_eqI) (auto simp add: bit_take_bit_iff bit_nibble)
  then have "unat ?nv = take_bit 4 (unat ?nv)"
    using unsigned_take_bit_eq [of 4 ?nv, where ?'a = nat] by simp
  moreover have "take_bit 4 (unat ?nv) < 2 ^ 4" by (rule take_bit_nat_less_exp)
  ultimately show ?thesis by simp
qed

lemma digit_of_nibble:
  "char_to_uint8_t (hex_map ! unat (nibble_loop num i [0..<4] 0)) = nibble_loop num i [0..<4] 0"
  by (simp add: hex_map_inverse [OF nibble_bound])

lemma length_bitset_to_hex: "length (bitset_to_hex (num :: 'a::len word)) = LENGTH('a) div 4"
  by (simp add: bitset_to_hex_def)

lemma rev_bitset_to_hex_nth:
  assumes "q < LENGTH('a::len) div 4"
  shows "char_to_uint8_t (rev (bitset_to_hex (num :: 'a word)) ! q) =
     nibble_loop num (LENGTH('a) div 4 - Suc q) [0..<4] 0"
proof -
  have "rev (bitset_to_hex num) ! q = bitset_to_hex num ! (LENGTH('a) div 4 - Suc q)"
    using assms by (simp add: rev_nth length_bitset_to_hex)
  also have "\<dots> = hex_map ! unat (nibble_loop num (LENGTH('a) div 4 - Suc q) [0..<4] 0)"
    using assms by (simp add: bitset_to_hex_def)
  finally show ?thesis by (simp add: digit_of_nibble)
qed

lemma bit_index:
  fixes N n :: nat
  assumes "4 dvd N" and "n < N"
  shows "(N - 1) - ((N div 4 - Suc (n div 4)) * 4) - (3 - n mod 4) = n"
proof -
  from assms obtain m where m: "N = 4 * m" by (auto elim: dvdE)
  with assms(2) have q: "n div 4 < m" by auto
  have r: "n mod 4 < 4" by simp
  have n: "n = 4 * (n div 4) + n mod 4" by simp
  from q have "(m - Suc (n div 4)) * 4 = 4 * m - 4 - 4 * (n div 4)"
    by (simp add: algebra_simps)
  with m q r n show ?thesis by simp
qed

lemma bit_hex_number_render:
  assumes "4 dvd LENGTH('a::len)"
  shows "bit (hex_number (bitset_to_hex (num :: 'a word))) n \<longleftrightarrow> bit num n"
proof (cases "n < LENGTH('a)")
  case True
  with assms have q: "n div 4 < LENGTH('a) div 4" by (auto elim!: dvdE)
  have "bit (hex_number (bitset_to_hex num)) n \<longleftrightarrow>
      bit (nibble_loop num (LENGTH('a) div 4 - Suc (n div 4)) [0..<4] 0) (n mod 4)"
    using q by (simp add: bit_hex_number length_bitset_to_hex rev_bitset_to_hex_nth)
  also have "\<dots> \<longleftrightarrow> n mod 4 < 4 \<and>
      bit num ((LENGTH('a) - 1) - ((LENGTH('a) div 4 - Suc (n div 4)) * 4) - (3 - n mod 4))"
    by (rule bit_nibble)
  also have "\<dots> \<longleftrightarrow> bit num n"
    unfolding bit_index [OF assms True] by simp
  finally show ?thesis .
next
  case False
  with assms have "\<not> n div 4 < LENGTH('a) div 4" by (auto elim!: dvdE)
  moreover from False have "\<not> bit num n" using bit_imp_le_length [of num n] by auto
  ultimately show ?thesis by (simp add: bit_hex_number length_bitset_to_hex)
qed

lemma hex_number_render:
  assumes "4 dvd LENGTH('a::len)"
  shows "hex_number (bitset_to_hex (num :: 'a word)) = unat num"
  by (rule bit_eqI) (simp add: bit_hex_number_render [OF assms] bit_unsigned_iff)

lemma render_digits: "list_all is_hex_digit (bitset_to_hex num)"
  by (simp add: bitset_to_hex_def list_all_iff hex_map_digit [OF nibble_bound])

lemma round_trip:
  assumes "4 dvd LENGTH('a::len)" and "LENGTH('a) \<le> 64"
  shows "ksv_string_to_bitset (bitset_to_hex (num :: 'a word)) = Some num"
  by (simp add: parse_value [OF assms(2)] hex_number_render [OF assms(1)])

text \<open>Renderings of concrete vectors, computed from the definition.\<close>

lemma render_canonical: "bitset_to_hex (0xfffff :: 40 word) = ''00000fffff''"
  by code_simp

lemma render_key: "bitset_to_hex (0x123456789abcde :: 56 word) = ''123456789abcde''"
  by code_simp

lemma render_zero:
  "bitset_to_hex (0 :: 40 word) = ''0000000000'' \<and>
   bitset_to_hex (0 :: 56 word) = ''00000000000000''"
  by code_simp

text \<open>
  C4. For the widths 40 and 56, parsing the rendering of a vector gives the vector back;
  the rendering has \<open>N / 4\<close> characters, all of them among \<open>0-9a-f\<close>, and read as a
  hexadecimal number it is the value of the vector.
\<close>

theorem hex_round_trip:
  "ksv_string_to_bitset (bitset_to_hex (v :: 40 word)) = Some v \<and>
   length (bitset_to_hex v) = 10 \<and>
   list_all is_hex_digit (bitset_to_hex v) \<and>
   hex_number (bitset_to_hex v) = unat v \<and>
   ksv_string_to_bitset (bitset_to_hex (w :: 56 word)) = Some w \<and>
   length (bitset_to_hex w) = 14 \<and>
   list_all is_hex_digit (bitset_to_hex w) \<and>
   hex_number (bitset_to_hex w) = unat w"
proof -
  have "ksv_string_to_bitset (bitset_to_hex v) = Some v"
    by (rule round_trip) simp_all
  moreover have "ksv_string_to_bitset (bitset_to_hex w) = Some w"
    by (rule round_trip) simp_all
  moreover have "hex_number (bitset_to_hex v) = unat v"
    by (rule hex_number_render) simp
  moreover have "hex_number (bitset_to_hex w) = unat w"
    by (rule hex_number_render) simp
  ultimately show ?thesis
    by (simp add: length_bitset_to_hex render_digits)
qed

theorem hex_round_trip_witness:
  "bitset_to_hex (0xfffff :: 40 word) = ''00000fffff'' \<and>
   ksv_string_to_bitset ''00000fffff'' = Some (0xfffff :: 40 word) \<and>
   bitset_to_hex (0x123456789abcde :: 56 word) = ''123456789abcde'' \<and>
   ksv_string_to_bitset ''123456789abcde'' = Some (0x123456789abcde :: 56 word)"
  using hex_round_trip [of "0xfffff" "0x123456789abcde"]
  unfolding render_canonical render_key by simp

end
